theory Spec2Isabelle
  imports Complex_Main
begin

section \<open>Numbers\<close>

text \<open>
  The mapping utilities compute on JavaScript numbers. A finite number is modelled as an
  exact real (rounding is not modelled); \<open>NonFinite\<close> stands for the values that are not
  finite numbers: \<open>NaN\<close> (also what \<open>undefined\<close> becomes in arithmetic) and the two
  infinities. Addition, subtraction and multiplication give a non-finite result as soon
  as one operand is non-finite, and a division of finite numbers gives one exactly when
  the divisor is zero.
\<close>

datatype jsnum = Num real | NonFinite

instantiation jsnum :: "{plus, minus, times}"
begin

fun plus_jsnum :: "jsnum \<Rightarrow> jsnum \<Rightarrow> jsnum" where
  "plus_jsnum (Num a) (Num b) = Num (a + b)"
| "plus_jsnum _ _ = NonFinite"

fun minus_jsnum :: "jsnum \<Rightarrow> jsnum \<Rightarrow> jsnum" where
  "minus_jsnum (Num a) (Num b) = Num (a - b)"
| "minus_jsnum _ _ = NonFinite"

fun times_jsnum :: "jsnum \<Rightarrow> jsnum \<Rightarrow> jsnum" where
  "times_jsnum (Num a) (Num b) = Num (a * b)"
| "times_jsnum _ _ = NonFinite"

instance ..

end

text \<open>\<open>a / b\<close> on two finite numbers.\<close>

definition js_div :: "real \<Rightarrow> real \<Rightarrow> jsnum" where
  "js_div a b = (if b = 0 then NonFinite else Num (a / b))"

text \<open>\<open>xs[i]\<close> read as a number: out of range it is \<open>undefined\<close>.\<close>

definition elem :: "real list \<Rightarrow> nat \<Rightarrow> jsnum" where
  "elem xs i = (if i < length xs then Num (xs ! i) else NonFinite)"

text \<open>\<open>xs[i]\<close> read as an object: \<open>None\<close> is \<open>undefined\<close>.\<close>

definition nth_opt :: "'a list \<Rightarrow> nat \<Rightarrow> 'a option" where
  "nth_opt xs i = (if i < length xs then Some (xs ! i) else None)"

datatype error = TypeError

section \<open>Frames\<close>

text \<open>
  One record type serves for the analysis frames of the dataset (fields are finite
  numbers, \<open>real frame\<close>) and for the snapshots the resolver returns (fields are
  \<open>jsnum\<close>, since an interpolated field can be non-finite).
\<close>

record 'n frame =
  time :: 'n
  rms :: 'n
  centroid :: 'n
  centroid_hz :: 'n
  contrast :: 'n
  onset :: 'n
  harmonic :: 'n
  percussive :: 'n
  bands :: "'n list"
  chroma :: "'n list"

text \<open>The copy \<open>{ ...frame }\<close>.\<close>

definition spread :: "real frame \<Rightarrow> jsnum frame" where
  "spread f =
     \<lparr> time = Num (time f), rms = Num (rms f), centroid = Num (centroid f),
       centroid_hz = Num (centroid_hz f), contrast = Num (contrast f),
       onset = Num (onset f), harmonic = Num (harmonic f),
       percussive = Num (percussive f), bands = map Num (bands f),
       chroma = map Num (chroma f) \<rparr>"

section \<open>The mapping utilities\<close>

definition lerp :: "jsnum \<Rightarrow> jsnum \<Rightarrow> jsnum \<Rightarrow> jsnum" where
  "lerp current target factor = current + (target - current) * factor"

text \<open>
  The binary search of \<open>getFrameIndex\<close>: the \<open>while (low < high)\<close> loop. Reading
  \<open>frames[mid].time\<close> outside the array would throw.
\<close>

function search_loop :: "real frame list \<Rightarrow> real \<Rightarrow> nat \<Rightarrow> nat \<Rightarrow> error + nat" where
  "search_loop frames t low high =
     (if low < high then
        (let mid = (low + high + 1) div 2 in
         case nth_opt frames mid of
           None \<Rightarrow> Inl TypeError
         | Some f \<Rightarrow>
             if time f \<le> t then search_loop frames t mid high
             else search_loop frames t low (mid - 1))
      else Inr low)"
  by pat_completeness auto
termination
  by (relation "measure (\<lambda>(frames, t, low, high). high - low)") auto

definition getFrameIndex :: "real frame list option \<Rightarrow> real \<Rightarrow> error + nat" where
  "getFrameIndex frames t =
     (case frames of
        None \<Rightarrow> Inr 0
      | Some fs \<Rightarrow>
          if length fs = 0 then Inr 0
          else search_loop fs t 0 (length fs - 1))"

text \<open>\<open>xs.map((v, i) => lerp(v, ys[i], t))\<close>.\<close>

definition lerp_vec :: "real list \<Rightarrow> real list \<Rightarrow> jsnum \<Rightarrow> jsnum list" where
  "lerp_vec xs ys t = map (\<lambda>(i, v). lerp (Num v) (elem ys i) t) (enumerate 0 xs)"

text \<open>
  \<open>getFrameAtTime\<close>: \<open>None\<close> for the frames is \<open>null\<close> or \<open>undefined\<close>, \<open>Inr None\<close> is
  the returned \<open>null\<close>, \<open>Inl\<close> a thrown error.
\<close>

definition getFrameAtTime ::
  "real frame list option \<Rightarrow> real \<Rightarrow> error + jsnum frame option" where
  "getFrameAtTime frames t =
     (case frames of
        None \<Rightarrow> Inr None
      | Some fs \<Rightarrow>
          if length fs = 0 then Inr None
          else
            (case getFrameIndex frames t of
               Inl e \<Rightarrow> Inl e
             | Inr idx \<Rightarrow>
                 (case nth_opt fs idx of
                    None \<Rightarrow> Inl TypeError
                  | Some fr \<Rightarrow>
                      if idx \<ge> length fs - 1 \<or> time fr = t then Inr (Some (spread fr))
                      else
                        (case nth_opt fs (idx + 1) of
                           None \<Rightarrow> Inl TypeError
                         | Some nextFrame \<Rightarrow>
                             (let t' = js_div (t - time fr) (time nextFrame - time fr) in
                              Inr (Some
                                \<lparr> time = Num t,
                                  rms = lerp (Num (rms fr)) (Num (rms nextFrame)) t',
                                  centroid =
                                    lerp (Num (centroid fr)) (Num (centroid nextFrame)) t',
                                  centroid_hz =
                                    lerp (Num (centroid_hz fr)) (Num (centroid_hz nextFrame)) t',
                                  contrast =
                                    lerp (Num (contrast fr)) (Num (contrast nextFrame)) t',
                                  onset = lerp (Num (onset fr)) (Num (onset nextFrame)) t',
                                  harmonic =
                                    lerp (Num (harmonic fr)) (Num (harmonic nextFrame)) t',
                                  percussive =
                                    lerp (Num (percussive fr)) (Num (percussive nextFrame)) t',
                                  bands = lerp_vec (bands fr) (bands nextFrame) t',
                                  chroma = lerp_vec (chroma fr) (chroma nextFrame) t' \<rparr>))))))"

text \<open>
  \<open>getDominantPitch\<close>: the \<open>for\<close> loop from index 1, carrying \<open>maxIdx\<close> and \<open>maxVal\<close>.
  On an empty array \<open>maxVal\<close> is \<open>undefined\<close>, the loop body never runs and the result
  is 0.
\<close>

function pitch_loop :: "real list \<Rightarrow> nat \<Rightarrow> nat \<Rightarrow> real \<Rightarrow> nat" where
  "pitch_loop cs i maxIdx maxVal =
     (if i < length cs then
        (if cs ! i > maxVal then pitch_loop cs (i + 1) i (cs ! i)
         else pitch_loop cs (i + 1) maxIdx maxVal)
      else maxIdx)"
  by pat_completeness auto
termination
  by (relation "measure (\<lambda>(cs, i, maxIdx, maxVal). length cs - i)") auto

definition getDominantPitch :: "real list \<Rightarrow> nat" where
  "getDominantPitch cs =
     (case cs of [] \<Rightarrow> 0 | v # _ \<Rightarrow> pitch_loop cs 1 0 v)"

section \<open>Smoothers\<close>

text \<open>
  The closure returned by \<open>createSmoother(factor)\<close> is its captured \<open>factor\<close> and its
  variable \<open>value\<close> (\<open>None\<close> is \<open>null\<close>). A call of the closure is \<open>smooth\<close>, which
  returns the output and the closure with its variable updated.
\<close>

record smoother =
  factor :: real
  val :: "jsnum option"

definition createSmoother :: "real \<Rightarrow> smoother" where
  "createSmoother f = \<lparr> factor = f, val = None \<rparr>"

definition smooth :: "smoother \<Rightarrow> jsnum \<Rightarrow> jsnum \<times> smoother" where
  "smooth s target =
     (let v = (case val s of
                 None \<Rightarrow> target
               | Some cur \<Rightarrow> lerp cur target (Num (factor s)))
      in (v, s\<lparr>val := Some v\<rparr>))"

text \<open>Successive calls of one smoother: the outputs, and the smoother afterwards.\<close>

fun smooth_all :: "smoother \<Rightarrow> jsnum list \<Rightarrow> jsnum list \<times> smoother" where
  "smooth_all s [] = ([], s)"
| "smooth_all s (x # xs) =
     (let (y, s') = smooth s x; (ys, s'') = smooth_all s' xs in (y # ys, s''))"
















section \<open>Example data\<close>

text \<open>A synthetic frame at time \<open>t\<close> whose features all have the value \<open>v\<close>.\<close>

definition uniform_frame :: "real \<Rightarrow> real \<Rightarrow> real frame" where
  "uniform_frame t v =
     \<lparr> time = t, rms = v, centroid = v, centroid_hz = v, contrast = v, onset = v,
       harmonic = v, percussive = v, bands = replicate 7 v, chroma = replicate 12 v \<rparr>"

declare search_loop.simps [simp del]
declare pitch_loop.simps [simp del]

section \<open>The frame resolver\<close>

lemma search_mid_bounds:
  fixes low high :: nat
  assumes "low < high"
  shows "low < (low + high + 1) div 2" "(low + high + 1) div 2 \<le> high"
  using assms by linarith+

lemma search_loop_total:
  assumes "low \<le> high" "high < length frames"
  shows "\<exists>r. search_loop frames t low high = Inr r \<and> low \<le> r \<and> r \<le> high"
  using assms
proof (induction frames t low high rule: search_loop.induct)
  case (1 frames t low high)
  show ?case
  proof (cases "low < high")
    case False
    then have "search_loop frames t low high = Inr low"
      by (simp add: search_loop.simps [of frames t low high])
    then show ?thesis using "1.prems" by simp
  next
    case True
    define mid where "mid = (low + high + 1) div 2"
    have mb: "low < mid" "mid \<le> high"
      using search_mid_bounds [OF True] by (simp_all add: mid_def)
    then have ml: "mid < length frames" using "1.prems" by simp
    then have no: "nth_opt frames mid = Some (frames ! mid)" by (simp add: nth_opt_def)
    show ?thesis
    proof (cases "time (frames ! mid) \<le> t")
      case le: True
      have eq: "search_loop frames t low high = search_loop frames t mid high"
        using True le no by (simp add: search_loop.simps [of frames t low high] mid_def Let_def)
      have "\<exists>r. search_loop frames t mid high = Inr r \<and> mid \<le> r \<and> r \<le> high"
        using "1.IH"(1) [OF True mid_def no le] mb "1.prems" by simp
      with eq mb show ?thesis by auto
    next
      case gt: False
      have eq: "search_loop frames t low high = search_loop frames t low (mid - 1)"
        using True gt no by (simp add: search_loop.simps [of frames t low high] mid_def Let_def)
      have "\<exists>r. search_loop frames t low (mid - 1) = Inr r \<and> low \<le> r \<and> r \<le> mid - 1"
        using "1.IH"(2) [OF True mid_def no gt] mb "1.prems" by simp
      with eq mb show ?thesis by auto
    qed
  qed
qed

lemma search_loop_sorted:
  assumes "sorted (map time frames)" "low \<le> high" "high < length frames"
    and "0 < low \<longrightarrow> time (frames ! low) \<le> t"
    and "\<forall>j. high < j \<and> j < length frames \<longrightarrow> t < time (frames ! j)"
    and "search_loop frames t low high = Inr r"
  shows "(0 < r \<longrightarrow> time (frames ! r) \<le> t)
       \<and> (\<forall>j. r < j \<and> j < length frames \<longrightarrow> t < time (frames ! j))"
  using assms
proof (induction frames t low high rule: search_loop.induct)
  case (1 frames t low high)
  show ?case
  proof (cases "low < high")
    case False
    then have "r = low" using "1.prems"(6) by (simp add: search_loop.simps [of frames t low high])
    moreover from False "1.prems"(2) have "low = high" by simp
    ultimately show ?thesis using "1.prems" by simp
  next
    case True
    define mid where "mid = (low + high + 1) div 2"
    have mb: "low < mid" "mid \<le> high"
      using search_mid_bounds [OF True] by (simp_all add: mid_def)
    then have ml: "mid < length frames" using "1.prems" by simp
    then have no: "nth_opt frames mid = Some (frames ! mid)" by (simp add: nth_opt_def)
    show ?thesis
    proof (cases "time (frames ! mid) \<le> t")
      case le: True
      have eq: "search_loop frames t low high = search_loop frames t mid high"
        using True le no by (simp add: search_loop.simps [of frames t low high] mid_def Let_def)
      show ?thesis
        using "1.IH"(1) [OF True mid_def no le "1.prems"(1) mb(2) "1.prems"(3)] le "1.prems"(5,6) eq
        by simp
    next
      case gt: False
      have eq: "search_loop frames t low high = search_loop frames t low (mid - 1)"
        using True gt no by (simp add: search_loop.simps [of frames t low high] mid_def Let_def)
      have hi: "\<forall>j. mid - 1 < j \<and> j < length frames \<longrightarrow> t < time (frames ! j)"
      proof (intro allI impI)
        fix j assume j: "mid - 1 < j \<and> j < length frames"
        then have "mid \<le> j" by linarith
        then have "time (frames ! mid) \<le> time (frames ! j)"
          using "1.prems"(1) j by (simp add: sorted_iff_nth_mono)
        with gt show "t < time (frames ! j)" by simp
      qed
      have b: "low \<le> mid - 1" "mid - 1 < length frames" using mb ml by simp_all
      show ?thesis
        using "1.IH"(2) [OF True mid_def no gt "1.prems"(1) b "1.prems"(4) hi] "1.prems"(6) eq
        by simp
    qed
  qed
qed


lemma getFrameIndex_total:
  assumes "fs \<noteq> []"
  shows "\<exists>idx. getFrameIndex (Some fs) t = Inr idx \<and> idx < length fs"
proof -
  have l: "length fs - 1 < length fs" using assms by simp
  from search_loop_total [OF _ l, of 0 t]
  obtain r where "search_loop fs t 0 (length fs - 1) = Inr r" "r \<le> length fs - 1" by auto
  moreover from this l have "r < length fs" by linarith
  ultimately show ?thesis using assms by (simp add: getFrameIndex_def)
qed

lemma getFrameIndex_sorted:
  assumes "sorted (map time fs)" "fs \<noteq> []" "getFrameIndex (Some fs) t = Inr idx"
  shows "(0 < idx \<longrightarrow> time (fs ! idx) \<le> t)
       \<and> (\<forall>j. idx < j \<and> j < length fs \<longrightarrow> t < time (fs ! j))"
proof -
  have l: "length fs - 1 < length fs" using assms(2) by simp
  have s: "search_loop fs t 0 (length fs - 1) = Inr idx"
    using assms(2,3) by (simp add: getFrameIndex_def)
  show ?thesis
    by (rule search_loop_sorted [OF assms(1) _ l _ _ s]) auto
qed

lemma getFrameAtTime_as_is:
  assumes "getFrameIndex (Some fs) t = Inr idx" "idx < length fs"
    and "length fs - 1 \<le> idx \<or> time (fs ! idx) = t"
  shows "getFrameAtTime (Some fs) t = Inr (Some (spread (fs ! idx)))"
  using assms by (auto simp: getFrameAtTime_def nth_opt_def)

lemma getFrameAtTime_interpolated:
  assumes "getFrameIndex (Some fs) t = Inr idx" "idx + 1 < length fs"
    and "time (fs ! idx) \<noteq> t"
  shows "\<exists>s. getFrameAtTime (Some fs) t = Inr (Some s)
       \<and> time s = Num t
       \<and> rms s = lerp (Num (rms (fs ! idx))) (Num (rms (fs ! (idx + 1))))
           (js_div (t - time (fs ! idx)) (time (fs ! (idx + 1)) - time (fs ! idx)))
       \<and> centroid s = lerp (Num (centroid (fs ! idx))) (Num (centroid (fs ! (idx + 1))))
           (js_div (t - time (fs ! idx)) (time (fs ! (idx + 1)) - time (fs ! idx)))
       \<and> centroid_hz s = lerp (Num (centroid_hz (fs ! idx))) (Num (centroid_hz (fs ! (idx + 1))))
           (js_div (t - time (fs ! idx)) (time (fs ! (idx + 1)) - time (fs ! idx)))
       \<and> contrast s = lerp (Num (contrast (fs ! idx))) (Num (contrast (fs ! (idx + 1))))
           (js_div (t - time (fs ! idx)) (time (fs ! (idx + 1)) - time (fs ! idx)))
       \<and> onset s = lerp (Num (onset (fs ! idx))) (Num (onset (fs ! (idx + 1))))
           (js_div (t - time (fs ! idx)) (time (fs ! (idx + 1)) - time (fs ! idx)))
       \<and> harmonic s = lerp (Num (harmonic (fs ! idx))) (Num (harmonic (fs ! (idx + 1))))
           (js_div (t - time (fs ! idx)) (time (fs ! (idx + 1)) - time (fs ! idx)))
       \<and> percussive s = lerp (Num (percussive (fs ! idx))) (Num (percussive (fs ! (idx + 1))))
           (js_div (t - time (fs ! idx)) (time (fs ! (idx + 1)) - time (fs ! idx)))
       \<and> bands s = lerp_vec (bands (fs ! idx)) (bands (fs ! (idx + 1)))
           (js_div (t - time (fs ! idx)) (time (fs ! (idx + 1)) - time (fs ! idx)))
       \<and> chroma s = lerp_vec (chroma (fs ! idx)) (chroma (fs ! (idx + 1)))
           (js_div (t - time (fs ! idx)) (time (fs ! (idx + 1)) - time (fs ! idx)))"
proof -
  have "\<not> length fs - 1 \<le> idx" "idx < length fs" "fs \<noteq> []" using assms(2) by auto
  then show ?thesis
    using assms by (simp add: getFrameAtTime_def nth_opt_def Let_def)
qed

lemma search_two [simp]:
  "search_loop [a, b] t 0 (Suc 0) = Inr (if time b \<le> t then 1 else 0)"
  by (simp add: search_loop.simps [of _ _ 0 "Suc 0"] search_loop.simps [of _ _ 0 0]
      search_loop.simps [of _ _ "Suc 0" "Suc 0"] nth_opt_def)

lemma search_one [simp]: "search_loop [a] t 0 0 = Inr 0"
  by (simp add: search_loop.simps [of _ _ 0 0])

lemma lerp_Num: "lerp (Num a) (Num b) (Num u) = Num (a + (b - a) * u)"
  by (simp add: lerp_def)

lemma length_lerp_vec [simp]: "length (lerp_vec xs ys u) = length xs"
  by (simp add: lerp_vec_def)

lemma nth_lerp_vec:
  "k < length xs \<Longrightarrow> lerp_vec xs ys u ! k = lerp (Num (xs ! k)) (elem ys k) u"
  by (simp add: lerp_vec_def nth_enumerate_eq)

lemma lerp_vec_replicate:
  "lerp_vec (replicate n a) (replicate n b) (Num u) = replicate n (Num (a + (b - a) * u))"
  by (rule nth_equalityI) (simp_all add: nth_lerp_vec elem_def lerp_Num)

text \<open>
  C1, as amended: on a non-empty frame sequence sorted ascending by time, when the query
  time equals \<open>frames[i].time\<close> and no later frame has that same time, \<open>getFrameAtTime\<close>
  returns the copy of \<open>frames[i]\<close>, so every feature value is that of \<open>frames[i]\<close>. The
  search locates the last frame whose time is at most the query time, so among frames
  sharing a time it is the last of them that is returned.
\<close>

theorem getFrameAtTime_exact_match:
  assumes "sorted (map time fs)" "i < length fs" "time (fs ! i) = t"
    and "\<forall>j. i < j \<and> j < length fs \<longrightarrow> time (fs ! j) \<noteq> t"
  shows "getFrameAtTime (Some fs) t = Inr (Some (spread (fs ! i)))"
proof -
  have ne: "fs \<noteq> []" using assms(2) by auto
  from getFrameIndex_total [OF ne, of t]
  obtain idx where i: "getFrameIndex (Some fs) t = Inr idx" "idx < length fs" by auto
  note s = getFrameIndex_sorted [OF assms(1) ne i(1)]
  have "\<not> idx < i"
  proof
    assume "idx < i"
    with s assms(2) have "t < time (fs ! i)" by simp
    with assms(3) show False by simp
  qed
  moreover have "\<not> i < idx"
  proof
    assume a: "i < idx"
    with s have "time (fs ! idx) \<le> t" by simp
    moreover from a i(2) assms(1) have "time (fs ! i) \<le> time (fs ! idx)"
      by (simp add: sorted_iff_nth_mono)
    ultimately have "time (fs ! idx) = t" using assms(3) by simp
    with assms(4) a i(2) show False by simp
  qed
  ultimately have "idx = i" by simp
  with getFrameAtTime_as_is [OF i] assms(3) show ?thesis by simp
qed

theorem getFrameAtTime_exact_match_witness:
  "sorted (map time [uniform_frame 0 0.1, uniform_frame 0 0.9, uniform_frame 1 0.4])
   \<and> 1 < length [uniform_frame 0 0.1, uniform_frame 0 0.9, uniform_frame 1 0.4]
   \<and> time ([uniform_frame 0 0.1, uniform_frame 0 0.9, uniform_frame 1 0.4] ! 1) = 0
   \<and> time ([uniform_frame 0 0.1, uniform_frame 0 0.9, uniform_frame 1 0.4] ! 2) \<noteq> 0
   \<and> getFrameAtTime (Some [uniform_frame 0 0.1, uniform_frame 0 0.9, uniform_frame 1 0.4]) 0
       = Inr (Some (spread (uniform_frame 0 0.9)))"
proof -
  have h: "\<forall>j. 1 < j \<and> j < length [uniform_frame 0 0.1, uniform_frame 0 0.9, uniform_frame 1 0.4]
         \<longrightarrow> time ([uniform_frame 0 0.1, uniform_frame 0 0.9, uniform_frame 1 0.4] ! j) \<noteq> 0"
  proof (intro allI impI)
    fix j :: nat
    assume "1 < j \<and> j < length [uniform_frame 0 0.1, uniform_frame 0 0.9, uniform_frame 1 0.4]"
    then have "j = 2" by simp
    then show "time ([uniform_frame 0 0.1, uniform_frame 0 0.9, uniform_frame 1 0.4] ! j) \<noteq> 0"
      by (simp add: uniform_frame_def)
  qed
  show ?thesis
    using h getFrameAtTime_exact_match
      [of "[uniform_frame 0 0.1, uniform_frame 0 0.9, uniform_frame 1 0.4]" 1 0]
    by (simp add: uniform_frame_def)
qed

text \<open>
  C1 as stated fails when two frames share a time: with frames at times 0 and 0 and the
  query time 0, the index 0 matches exactly, yet the values returned are those of the
  frame at index 1.
\<close>

theorem getFrameAtTime_duplicate_time_counterexample:
  "sorted (map time [uniform_frame 0 0.1, uniform_frame 0 0.9])
   \<and> time ([uniform_frame 0 0.1, uniform_frame 0 0.9] ! 0) = 0
   \<and> getFrameAtTime (Some [uniform_frame 0 0.1, uniform_frame 0 0.9]) 0
       = Inr (Some (spread (uniform_frame 0 0.9)))
   \<and> rms (spread (uniform_frame 0 0.9))
       \<noteq> Num (rms ([uniform_frame 0 0.1, uniform_frame 0 0.9] ! 0))"
  by (simp add: getFrameAtTime_def getFrameIndex_def nth_opt_def uniform_frame_def spread_def)

text \<open>
  C3: on a non-empty frame sequence sorted ascending by time, for a query time at or
  after the last frame's time, \<open>getFrameAtTime\<close> returns the copy of the last frame: its
  values verbatim, nothing extrapolated.
\<close>

theorem getFrameAtTime_at_or_after_last:
  assumes "fs \<noteq> []" "sorted (map time fs)" "time (last fs) \<le> t"
  shows "getFrameAtTime (Some fs) t = Inr (Some (spread (last fs)))"
proof -
  from getFrameIndex_total [OF assms(1), of t]
  obtain idx where i: "getFrameIndex (Some fs) t = Inr idx" "idx < length fs" by auto
  have "idx = length fs - 1"
  proof (rule ccontr)
    assume "idx \<noteq> length fs - 1"
    with i(2) have "idx < length fs - 1 \<and> length fs - 1 < length fs" by linarith
    with getFrameIndex_sorted [OF assms(2,1) i(1)] have "t < time (fs ! (length fs - 1))"
      by blast
    with assms(1,3) show False by (simp add: last_conv_nth)
  qed
  with getFrameAtTime_as_is [OF i] assms(1) show ?thesis by (simp add: last_conv_nth)
qed

theorem getFrameAtTime_at_or_after_last_witness:
  "[uniform_frame 0 0.2, uniform_frame 1 0.8] \<noteq> []
   \<and> sorted (map time [uniform_frame 0 0.2, uniform_frame 1 0.8])
   \<and> time (last [uniform_frame 0 0.2, uniform_frame 1 0.8]) \<le> 3
   \<and> getFrameAtTime (Some [uniform_frame 0 0.2, uniform_frame 1 0.8]) 3
       = Inr (Some (spread (uniform_frame 1 0.8)))"
  using getFrameAtTime_at_or_after_last [of "[uniform_frame 0 0.2, uniform_frame 1 0.8]" 3]
  by (simp add: uniform_frame_def)


text \<open>
  C4, as amended: on every non-empty frame sequence \<open>getFrameAtTime\<close> returns a snapshot
  whose \<open>time\<close> field is either the query time or the stored time of the last frame.
  When the sequence is sorted ascending by time, it is the query time if the sequence
  has at least two frames and the query time is before the last frame's time, and it is
  the last frame's stored time otherwise (a single frame, or a query time at or after
  the last frame's time), where the last frame is returned as it is.
\<close>

theorem getFrameAtTime_time_field:
  assumes "fs \<noteq> []"
  shows "\<exists>s. getFrameAtTime (Some fs) t = Inr (Some s)
       \<and> (time s = Num t \<or> time s = Num (time (last fs)))
       \<and> (sorted (map time fs) \<longrightarrow>
            time s = Num (if length fs = 1 \<or> time (last fs) \<le> t then time (last fs) else t))"
proof -
  from getFrameIndex_total [OF assms, of t]
  obtain idx where i: "getFrameIndex (Some fs) t = Inr idx" "idx < length fs" by auto
  have lst: "last fs = fs ! (length fs - 1)" using assms by (simp add: last_conv_nth)
  show ?thesis
  proof (cases "length fs - 1 \<le> idx")
    case True
    with i(2) have e: "idx = length fs - 1" by simp
    have r: "getFrameAtTime (Some fs) t = Inr (Some (spread (last fs)))"
      using getFrameAtTime_as_is [OF i] True e lst by simp
    have "time (last fs) \<le> t \<or> length fs = 1" if srt: "sorted (map time fs)"
    proof (cases "0 < idx")
      case True
      with getFrameIndex_sorted [OF srt assms i(1)] e lst show ?thesis by simp
    next
      case False
      with e assms have "length fs = 1" by (cases fs) auto
      then show ?thesis by simp
    qed
    with r show ?thesis by (auto simp: spread_def)
  next
    case False
    then have lt: "idx + 1 < length fs" by simp
    have p: "\<not> (length fs = 1 \<or> time (last fs) \<le> t)" if srt: "sorted (map time fs)"
    proof -
      from lt have "idx < length fs - 1 \<and> length fs - 1 < length fs" by linarith
      with getFrameIndex_sorted [OF srt assms i(1)] have "t < time (fs ! (length fs - 1))"
        by blast
      with lt lst show ?thesis by simp
    qed
    show ?thesis
    proof (cases "time (fs ! idx) = t")
      case True
      with getFrameAtTime_as_is [OF i] p show ?thesis by (auto simp: spread_def)
    next
      case ne: False
      from getFrameAtTime_interpolated [OF i(1) lt ne]
      obtain s where "getFrameAtTime (Some fs) t = Inr (Some s)" "time s = Num t" by blast
      with p show ?thesis by auto
    qed
  qed
qed

theorem getFrameAtTime_time_field_witness:
  "[uniform_frame 0 0.2, uniform_frame 1 0.8] \<noteq> []
   \<and> sorted (map time [uniform_frame 0 0.2, uniform_frame 1 0.8])
   \<and> map_sum id (map_option time) (getFrameAtTime (Some [uniform_frame 0 0.2, uniform_frame 1 0.8]) (1 / 4))
       = Inr (Some (Num (1 / 4)))
   \<and> map_sum id (map_option time) (getFrameAtTime (Some [uniform_frame 0 0.2, uniform_frame 1 0.8]) 7)
       = Inr (Some (Num 1))"
  using getFrameAtTime_time_field [of "[uniform_frame 0 0.2, uniform_frame 1 0.8]" "1 / 4"]
    getFrameAtTime_time_field [of "[uniform_frame 0 0.2, uniform_frame 1 0.8]" 7]
  by (auto simp: uniform_frame_def)

text \<open>
  C4 as stated fails: on the single frame at time 0 the query time 1 gives the copy of
  that frame, whose \<open>time\<close> field is 0 and not 1.
\<close>

theorem getFrameAtTime_time_field_counterexample:
  "[uniform_frame 0 0.5] \<noteq> []
   \<and> getFrameAtTime (Some [uniform_frame 0 0.5]) 1 = Inr (Some (spread (uniform_frame 0 0.5)))
   \<and> time (spread (uniform_frame 0 0.5)) \<noteq> Num 1"
  by (simp add: getFrameAtTime_def getFrameIndex_def nth_opt_def uniform_frame_def spread_def)

text \<open>
  C5, evaluated on the code: with two frames at times 1 and 2 whose features are 0 and 1,
  the query time 0 is before the first frame. The search locates index 0, which is
  neither the last index nor an exact match, so the interpolation branch runs with the
  fraction \<open>(0 - 1) / (2 - 1) = -1\<close> and every feature is extrapolated to \<open>-1\<close>; the
  first frame's values are not returned.
\<close>

theorem getFrameAtTime_before_first_extrapolates:
  "2 \<le> length [uniform_frame 1 0, uniform_frame 2 1]
   \<and> sorted (map time [uniform_frame 1 0, uniform_frame 2 1])
   \<and> 0 < time (hd [uniform_frame 1 0, uniform_frame 2 1])
   \<and> getFrameAtTime (Some [uniform_frame 1 0, uniform_frame 2 1]) 0
       = Inr (Some (spread (uniform_frame 0 (- 1))))
   \<and> spread (uniform_frame 0 (- 1)) \<noteq> spread (hd [uniform_frame 1 0, uniform_frame 2 1])
   \<and> rms (spread (uniform_frame 0 (- 1))) \<noteq> rms (spread (hd [uniform_frame 1 0, uniform_frame 2 1]))"
  by (simp add: getFrameAtTime_def getFrameIndex_def nth_opt_def uniform_frame_def spread_def
      js_div_def lerp_Num lerp_vec_replicate Let_def)

text \<open>
  C6: \<open>getFrameAtTime\<close> returns \<open>null\<close> exactly when the frames are absent or empty; on
  every non-empty frame sequence and every query time it returns a snapshot, and no
  error is thrown.
\<close>

theorem getFrameAtTime_null_iff:
  "(getFrameAtTime frames t = Inr None \<longleftrightarrow> frames = None \<or> frames = Some [])
   \<and> (\<forall>fs. frames = Some fs \<and> fs \<noteq> [] \<longrightarrow> (\<exists>s. getFrameAtTime frames t = Inr (Some s)))"
proof -
  have ne: "\<exists>s. getFrameAtTime (Some fs) t = Inr (Some s)" if "fs \<noteq> []" for fs
  proof -
    from getFrameIndex_total [OF that, of t]
    obtain idx where i: "getFrameIndex (Some fs) t = Inr idx" "idx < length fs" by auto
    show ?thesis
    proof (cases "length fs - 1 \<le> idx \<or> time (fs ! idx) = t")
      case True
      from getFrameAtTime_as_is [OF i True] show ?thesis by simp
    next
      case False
      then have "idx + 1 < length fs" "time (fs ! idx) \<noteq> t" by auto
      from getFrameAtTime_interpolated [OF i(1) this] show ?thesis by blast
    qed
  qed
  have "getFrameAtTime frames t = Inr None \<longleftrightarrow> frames = None \<or> frames = Some []"
  proof (cases frames)
    case None
    then show ?thesis by (simp add: getFrameAtTime_def)
  next
    case (Some fs)
    show ?thesis
    proof (cases "fs = []")
      case True
      with Some show ?thesis by (simp add: getFrameAtTime_def)
    next
      case False
      from ne [OF False] Some False show ?thesis by auto
    qed
  qed
  with ne show ?thesis by blast
qed

theorem getFrameAtTime_null_iff_witness:
  "getFrameAtTime None 5 = Inr None
   \<and> getFrameAtTime (Some []) 5 = Inr None
   \<and> Some [uniform_frame 0 0.5] = Some [uniform_frame 0 0.5]
   \<and> [uniform_frame 0 0.5] \<noteq> []
   \<and> (\<exists>s. getFrameAtTime (Some [uniform_frame 0 0.5]) 5 = Inr (Some s))"
  using getFrameAtTime_null_iff [of None 5] getFrameAtTime_null_iff [of "Some []" 5]
    getFrameAtTime_null_iff [of "Some [uniform_frame 0 0.5]" 5]
  by simp

section \<open>Dominant pitch\<close>

lemma pitch_loop_argmax:
  assumes "maxIdx < i" "i \<le> length cs" "maxVal = cs ! maxIdx"
    and "\<forall>j<i. cs ! j \<le> maxVal" "\<forall>j<maxIdx. cs ! j < maxVal"
  shows "pitch_loop cs i maxIdx maxVal < length cs
       \<and> (\<forall>j<length cs. cs ! j \<le> cs ! pitch_loop cs i maxIdx maxVal)
       \<and> (\<forall>j<pitch_loop cs i maxIdx maxVal. cs ! j < cs ! pitch_loop cs i maxIdx maxVal)"
  using assms
proof (induction cs i maxIdx maxVal rule: pitch_loop.induct)
  case (1 cs i maxIdx maxVal)
  show ?case
  proof (cases "i < length cs")
    case False
    then have "pitch_loop cs i maxIdx maxVal = maxIdx"
      by (simp add: pitch_loop.simps [of cs i])
    moreover from False "1.prems" have "i = length cs" by simp
    ultimately show ?thesis using "1.prems" by simp
  next
    case True
    show ?thesis
    proof (cases "cs ! i > maxVal")
      case gt: True
      have a: "\<forall>j<i + 1. cs ! j \<le> cs ! i"
        using "1.prems"(4) gt by (metis less_Suc_eq Suc_eq_plus1 less_eq_real_def order_trans)
      have b: "\<forall>j<i. cs ! j < cs ! i"
        using "1.prems"(4) gt by (meson le_less_trans)
      have "pitch_loop cs i maxIdx maxVal = pitch_loop cs (i + 1) i (cs ! i)"
        using True gt by (simp add: pitch_loop.simps [of cs i])
      moreover have "pitch_loop cs (i + 1) i (cs ! i) < length cs
       \<and> (\<forall>j<length cs. cs ! j \<le> cs ! pitch_loop cs (i + 1) i (cs ! i))
       \<and> (\<forall>j<pitch_loop cs (i + 1) i (cs ! i). cs ! j < cs ! pitch_loop cs (i + 1) i (cs ! i))"
        using "1.IH"(1) [OF True gt] True a b by simp
      ultimately show ?thesis by simp
    next
      case le: False
      have a: "\<forall>j<i + 1. cs ! j \<le> maxVal"
        using "1.prems"(4) le by (metis less_Suc_eq Suc_eq_plus1 not_less)
      have "pitch_loop cs i maxIdx maxVal = pitch_loop cs (i + 1) maxIdx maxVal"
        using True le by (simp add: pitch_loop.simps [of cs i])
      moreover have "pitch_loop cs (i + 1) maxIdx maxVal < length cs
       \<and> (\<forall>j<length cs. cs ! j \<le> cs ! pitch_loop cs (i + 1) maxIdx maxVal)
       \<and> (\<forall>j<pitch_loop cs (i + 1) maxIdx maxVal. cs ! j < cs ! pitch_loop cs (i + 1) maxIdx maxVal)"
        using "1.IH"(2) [OF True le] True a "1.prems" by simp
      ultimately show ?thesis by simp
    qed
  qed
qed

lemma dominant_pitch_argmax:
  assumes "cs \<noteq> []"
  shows "getDominantPitch cs < length cs
       \<and> (\<forall>j<length cs. cs ! j \<le> cs ! getDominantPitch cs)
       \<and> (\<forall>j<getDominantPitch cs. cs ! j < cs ! getDominantPitch cs)"
proof -
  obtain v vs where cs: "cs = v # vs" using assms by (cases cs) auto
  have "\<forall>j<(1::nat). cs ! j \<le> v" by (simp add: cs)
  then have "pitch_loop cs 1 0 v < length cs
       \<and> (\<forall>j<length cs. cs ! j \<le> cs ! pitch_loop cs 1 0 v)
       \<and> (\<forall>j<pitch_loop cs 1 0 v. cs ! j < cs ! pitch_loop cs 1 0 v)"
    by (intro pitch_loop_argmax) (simp_all add: cs)
  moreover have "getDominantPitch cs = pitch_loop cs 1 0 v"
    by (simp add: getDominantPitch_def cs)
  ultimately show ?thesis by simp
qed

text \<open>
  C9: for a non-empty chroma vector, \<open>getDominantPitch\<close> returns an index of a maximum
  element, and every element before that index is strictly smaller, so among tied
  maxima the lowest index is returned; a 12-element vector whose unique maximum is at
  index 1 gives 1.
\<close>

theorem getDominantPitch_first_maximum:
  assumes "cs \<noteq> []"
  shows "getDominantPitch cs < length cs
       \<and> (\<forall>j<length cs. cs ! j \<le> cs ! getDominantPitch cs)
       \<and> (\<forall>j<getDominantPitch cs. cs ! j < cs ! getDominantPitch cs)
       \<and> (length cs = 12 \<and> (\<forall>j<12. j \<noteq> 1 \<longrightarrow> cs ! j < cs ! 1)
            \<longrightarrow> getDominantPitch cs = 1)"
proof -
  let ?k = "getDominantPitch cs"
  note m = dominant_pitch_argmax [OF assms]
  have "?k = 1" if len: "length cs = 12" and u: "\<forall>j<12. j \<noteq> 1 \<longrightarrow> cs ! j < cs ! 1"
  proof (rule ccontr)
    assume ne: "?k \<noteq> 1"
    from m len have "?k < 12" by simp
    with u ne have "cs ! ?k < cs ! 1" by blast
    moreover from m len have "cs ! 1 \<le> cs ! ?k" by simp
    ultimately show False by simp
  qed
  with m show ?thesis by blast
qed

theorem getDominantPitch_first_maximum_witness:
  "[0.1, 0.9, 0.2, 0.9, 0.3, 0, 0, 0.5, 0, 0, 0, 0.9] \<noteq> ([] :: real list)
   \<and> getDominantPitch [0.1, 0.9, 0.2, 0.9, 0.3, 0, 0, 0.5, 0, 0, 0, 0.9] = 1
   \<and> getDominantPitch [0.1, 0.9, 0.2, 0.4, 0.3, 0, 0, 0.5, 0, 0, 0, 0.8] = 1"
  using getDominantPitch_first_maximum [of "[0.1, 0.9, 0.2, 0.9, 0.3, 0, 0, 0.5, 0, 0, 0, 0.9]"]
  by (simp add: getDominantPitch_def pitch_loop.simps)

section \<open>Smoothing\<close>

lemma smooth_fresh: "smooth (createSmoother r) x = (x, \<lparr> factor = r, val = Some x \<rparr>)"
  by (simp add: smooth_def createSmoother_def)

lemma smooth_Some:
  "val s = Some p \<Longrightarrow> smooth s x = (lerp p x (Num (factor s)), s\<lparr>val := Some (lerp p x (Num (factor s)))\<rparr>)"
  by (simp add: smooth_def Let_def)

lemma length_smooth_all [simp]: "length (fst (smooth_all s xs)) = length xs"
  by (induction xs arbitrary: s) (simp_all add: split_def Let_def)

lemma smooth_all_Cons:
  "fst (smooth_all s (x # xs)) = fst (smooth s x) # fst (smooth_all (snd (smooth s x)) xs)"
  by (simp add: split_def Let_def)

declare smooth_all.simps(2) [simp del]

lemma smooth_all_step:
  assumes "val s = Some p" "k < length xs"
  shows "fst (smooth_all s xs) ! k
       = lerp (if k = 0 then p else fst (smooth_all s xs) ! (k - 1)) (xs ! k) (Num (factor s))"
  using assms
proof (induction xs arbitrary: s p k)
  case Nil
  then show ?case by simp
next
  case (Cons x xs)
  let ?y = "lerp p x (Num (factor s))"
  let ?s' = "s\<lparr>val := Some ?y\<rparr>"
  have sm: "smooth s x = (?y, ?s')" using Cons.prems(1) by (rule smooth_Some)
  have out: "fst (smooth_all s (x # xs)) = ?y # fst (smooth_all ?s' xs)"
    by (simp only: smooth_all_Cons sm fst_conv snd_conv)
  show ?case
  proof (cases k)
    case 0
    then show ?thesis by (simp add: out)
  next
    case (Suc j)
    then have j: "j < length xs" using Cons.prems(2) by simp
    have v: "val ?s' = Some ?y" by simp
    from Cons.IH [OF v j] show ?thesis
      by (cases j) (simp_all add: out Suc)
  qed
qed

text \<open>
  C7: for a responsiveness \<open>r\<close> in (0, 1], the first call of the function returned by
  \<open>createSmoother(r)\<close> returns its argument as it is, and every later call with target
  \<open>x\<close> returns \<open>prev + (x - prev) * r\<close>, where \<open>prev\<close> is the value the call just before
  it returned.
\<close>

theorem createSmoother_first_then_lerp:
  assumes "0 < r" "r \<le> 1" "targets \<noteq> []"
  shows "length (fst (smooth_all (createSmoother r) targets)) = length targets
       \<and> fst (smooth_all (createSmoother r) targets) ! 0 = targets ! 0
       \<and> (\<forall>k. 0 < k \<and> k < length targets \<longrightarrow>
            fst (smooth_all (createSmoother r) targets) ! k
            = fst (smooth_all (createSmoother r) targets) ! (k - 1)
              + (targets ! k - fst (smooth_all (createSmoother r) targets) ! (k - 1)) * Num r)"
proof -
  obtain x xs where t: "targets = x # xs" using assms(3) by (cases targets) auto
  let ?s = "\<lparr> factor = r, val = Some x \<rparr>"
  have out: "fst (smooth_all (createSmoother r) (x # xs)) = x # fst (smooth_all ?s xs)"
    by (simp only: smooth_all_Cons smooth_fresh fst_conv snd_conv)
  have "fst (smooth_all (createSmoother r) targets) ! k
            = fst (smooth_all (createSmoother r) targets) ! (k - 1)
              + (targets ! k - fst (smooth_all (createSmoother r) targets) ! (k - 1)) * Num r"
    if k: "0 < k" "k < length targets" for k
  proof -
    obtain j where j: "k = Suc j" using k(1) by (cases k) auto
    then have jl: "j < length xs" using k(2) t by simp
    have v: "val ?s = Some x" by simp
    from smooth_all_step [OF v jl] show ?thesis
      by (cases j) (simp_all add: out j t lerp_def)
  qed
  then show ?thesis by (simp add: out t)
qed

theorem createSmoother_first_then_lerp_witness:
  "(0::real) < 1 / 2 \<and> (1 / 2 :: real) \<le> 1 \<and> [Num 4, Num 8, Num 0] \<noteq> []
   \<and> fst (smooth_all (createSmoother (1 / 2)) [Num 4, Num 8, Num 0]) = [Num 4, Num 6, Num 3]"
  using createSmoother_first_then_lerp [of "1 / 2" "[Num 4, Num 8, Num 0]"]
  by (simp add: smooth_all.simps(2) smooth_def createSmoother_def lerp_def Let_def)


section \<open>The aggregate smoother\<close>











end
